theory Spec2Isabelle
  imports Main
begin

section \<open>The standard-library facilities used by \<open>random.hpp\<close>\<close>

text \<open>
  \<open>include/random.hpp\<close> defines two uninstantiable classes, \<open>random_prng\<close> and
  \<open>random_trng\<close>, each with four static \<open>random\<close> overloads and one private accessor of a
  function-local \<open>static thread_local\<close> engine. The code of the classes is embedded below,
  function by function. What the classes call but do not define comes from \<open><random>\<close>:
  \<open>std::random_device\<close>, \<open>std::mt19937_64\<close> and
  \<open>std::uniform_int_distribution<size_t>\<close>. Those are taken as parameters, gathered in
  one record:

  \<^item> \<open>'r\<close> is the state of a \<open>std::random_device\<close>, \<open>'e\<close> the state of a
    \<open>std::mt19937_64\<close>, \<open>'d\<close> a \<open>std::uniform_int_distribution<size_t>\<close> object;
  \<^item> \<open>operator()\<close> of the distribution is a non-const member taking the engine by
    reference, so a call returns the drawn number together with the distribution object and
    the engine as the call leaves them;
  \<^item> \<open>operator()\<close> is a template over the engine, hence one field per engine type;
    what it makes of the engine's raw output depends on the engine's range, which is 32
    bits for a \<open>random_device\<close> and 64 bits for a \<open>mt19937_64\<close>;
  \<^item> \<open>size_max\<close> is \<open>SIZE_MAX\<close>, the largest \<open>size_t\<close>, and \<open>vector_max_size\<close> is
    \<open>max_size()\<close> of the vector that \<open>random(vec, count)\<close> returns.

  Values of \<open>size_t\<close> are natural numbers, those up to \<open>size_max\<close>. The only
  subtraction of the source, \<open>size() - 1\<close>, is evaluated behind the emptiness test, and
  the loop counters stay below the bound they are compared with, so nothing wraps.

  Of the exceptions of the library, the model has the one that the standard prescribes
  for given arguments: \<open>std::length_error\<close> of \<open>reserve\<close>. Those that depend on the
  host (a failed allocation, a \<open>random_device\<close> that cannot be opened) or on the element
  type (a throwing copy) are outside the model.
\<close>

record ('d, 'r, 'e) stdlib =
  random_device_new :: "'r"
  random_device_call :: "'r \<Rightarrow> nat \<times> 'r"
  mt19937_64_new :: "nat \<Rightarrow> 'e"
  mt19937_64_call :: "'e \<Rightarrow> nat \<times> 'e"
  size_max :: "nat"
  vector_max_size :: "nat"
  uid_new :: "nat \<Rightarrow> nat \<Rightarrow> 'd"
  uid_a :: "'d \<Rightarrow> nat"
  uid_b :: "'d \<Rightarrow> nat"
  uid_call_mt :: "'d \<Rightarrow> 'e \<Rightarrow> nat \<times> 'd \<times> 'e"
  uid_call_rd :: "'d \<Rightarrow> 'r \<Rightarrow> nat \<times> 'd \<times> 'r"

text \<open>
  \<open>operator[]\<close> of \<open>std::vector\<close> and \<open>std::array\<close> does no bounds check: an index
  outside the container is undefined behaviour. The model makes it a fault, which every
  caller propagates, as it does the exception of \<open>reserve\<close>.
\<close>

datatype fault = Index_Out_Of_Range | Length_Error

definition subscript :: "'a list \<Rightarrow> nat \<Rightarrow> fault + 'a" where
  "subscript xs i = (if i < length xs then Inr (xs ! i) else Inl Index_Out_Of_Range)"

text \<open>
  \<open>v.reserve(n)\<close> throws \<open>std::length_error\<close> if \<open>n > max_size()\<close>; otherwise it
  changes the capacity of \<open>v\<close> and leaves its elements as they are.
\<close>

definition vector_reserve :: "('d, 'r, 'e) stdlib \<Rightarrow> 'a list \<Rightarrow> nat \<Rightarrow> fault + 'a list" where
  "vector_reserve L v n = (if vector_max_size L < n then Inl Length_Error else Inr v)"

section \<open>Class \<open>random_prng\<close>\<close>

text \<open>
  The two \<open>static thread_local\<close> objects of \<open>_impl_prng_engine\<close> are constructed when the
  calling thread first runs through their declarations, and live until the thread ends.
  The thread's storage is \<open>None\<close> before that first call and holds both objects after it.
\<close>

record ('r, 'e) prng_statics =
  random_device_seed :: "'r"
  generator :: "'e"

definition impl_prng_engine ::
  "('d, 'r, 'e) stdlib \<Rightarrow> ('r, 'e) prng_statics option \<Rightarrow> ('r, 'e) prng_statics" where
  "impl_prng_engine L tls =
     (case tls of
        Some st \<Rightarrow> st
      | None \<Rightarrow>
          (case random_device_call L (random_device_new L) of
             (seed, rd) \<Rightarrow>
               \<lparr>random_device_seed = rd, generator = mt19937_64_new L seed\<rparr>))"

text \<open>\<open>random(const std::vector<T>&)\<close>; \<open>dflt\<close> is the value-initialised \<open>T{}\<close>.\<close>

definition prng_random_vec ::
  "('d, 'r, 'e) stdlib \<Rightarrow> 'a \<Rightarrow> 'a list \<Rightarrow> ('r, 'e) prng_statics option
     \<Rightarrow> fault + 'a \<times> ('r, 'e) prng_statics option" where
  "prng_random_vec L dflt vec tls =
     (if vec = [] then Inr (dflt, tls)
      else
        (let distribution = uid_new L 0 (length vec - 1);
             st = impl_prng_engine L tls
         in case uid_call_mt L distribution (generator st) of
              (k, distribution', engine') \<Rightarrow>
                (case subscript vec k of
                   Inl f \<Rightarrow> Inl f
                 | Inr x \<Rightarrow> Inr (x, Some (st\<lparr>generator := engine'\<rparr>)))))"

text \<open>
  The loop of \<open>random(const std::vector<T>&, size_t)\<close>:
  \<^verbatim>\<open>for (size_t i{ 0 }; i < count; ++i) ret_vec.push_back(vec[distribution(engine)]);\<close>
  The function itself declares \<open>ret_vec{}\<close> and reserves \<open>count\<close> elements for it
  before it constructs the distribution and asks for the engine.
\<close>

function prng_vec_loop ::
  "('d, 'r, 'e) stdlib \<Rightarrow> 'a list \<Rightarrow> nat \<Rightarrow> nat \<Rightarrow> 'a list \<Rightarrow> 'd \<Rightarrow> 'e
     \<Rightarrow> fault + 'a list \<times> 'd \<times> 'e" where
  "prng_vec_loop L vec count i ret_vec distribution engine =
     (if i < count then
        (case uid_call_mt L distribution engine of
           (k, distribution', engine') \<Rightarrow>
             (case subscript vec k of
                Inl f \<Rightarrow> Inl f
              | Inr x \<Rightarrow>
                  prng_vec_loop L vec count (Suc i) (ret_vec @ [x]) distribution' engine'))
      else Inr (ret_vec, distribution, engine))"
  by pat_completeness auto
termination
  by (relation "measure (\<lambda>(L, vec, count, i, ret_vec, distribution, engine). count - i)") auto

declare prng_vec_loop.simps [simp del]

definition prng_random_vec_n ::
  "('d, 'r, 'e) stdlib \<Rightarrow> 'a \<Rightarrow> 'a list \<Rightarrow> nat \<Rightarrow> ('r, 'e) prng_statics option
     \<Rightarrow> fault + 'a list \<times> ('r, 'e) prng_statics option" where
  "prng_random_vec_n L dflt vec count tls =
     (if vec = [] then Inr ([], tls)
      else if count = 0 then Inr ([], tls)
      else if count = 1 then
        (case prng_random_vec L dflt vec tls of
           Inl f \<Rightarrow> Inl f
         | Inr (x, tls') \<Rightarrow> Inr ([x], tls'))
      else
        (let ret_vec = []
         in case vector_reserve L ret_vec count of
           Inl f \<Rightarrow> Inl f
         | Inr ret_vec \<Rightarrow>
             (let distribution = uid_new L 0 (length vec - 1);
                  st = impl_prng_engine L tls
              in case prng_vec_loop L vec count 0 ret_vec distribution (generator st) of
                   Inl f \<Rightarrow> Inl f
                 | Inr (ret_vec', distribution', engine') \<Rightarrow>
                     Inr (ret_vec', Some (st\<lparr>generator := engine'\<rparr>)))))"

text \<open>
  \<open>random(const std::array<T, N>&)\<close>. A \<open>std::array<T, N>\<close> is a list of length \<open>N\<close>.
\<close>

definition prng_random_arr ::
  "('d, 'r, 'e) stdlib \<Rightarrow> 'a \<Rightarrow> 'a list \<Rightarrow> ('r, 'e) prng_statics option
     \<Rightarrow> fault + 'a \<times> ('r, 'e) prng_statics option" where
  "prng_random_arr L dflt arr tls =
     (if arr = [] then Inr (dflt, tls)
      else
        (let distribution = uid_new L 0 (length arr - 1);
             st = impl_prng_engine L tls
         in case uid_call_mt L distribution (generator st) of
              (k, distribution', engine') \<Rightarrow>
                (case subscript arr k of
                   Inl f \<Rightarrow> Inl f
                 | Inr x \<Rightarrow> Inr (x, Some (st\<lparr>generator := engine'\<rparr>)))))"

text \<open>
  The loop of \<open>random<Count>(const std::array<T, N>&)\<close>:
  \<^verbatim>\<open>for (size_t i{ 0 }; i < Count; ++i) ret_arr[i] = arr[distribution(engine)];\<close>
  The write \<open>ret_arr[i]\<close> is an unchecked \<open>operator[]\<close> too.
\<close>

function prng_arr_loop ::
  "('d, 'r, 'e) stdlib \<Rightarrow> 'a list \<Rightarrow> nat \<Rightarrow> nat \<Rightarrow> 'a list \<Rightarrow> 'd \<Rightarrow> 'e
     \<Rightarrow> fault + 'a list \<times> 'd \<times> 'e" where
  "prng_arr_loop L arr Count i ret_arr distribution engine =
     (if i < Count then
        (case uid_call_mt L distribution engine of
           (k, distribution', engine') \<Rightarrow>
             (case subscript arr k of
                Inl f \<Rightarrow> Inl f
              | Inr x \<Rightarrow>
                  (if i < length ret_arr
                   then prng_arr_loop L arr Count (Suc i) (ret_arr[i := x])
                          distribution' engine'
                   else Inl Index_Out_Of_Range)))
      else Inr (ret_arr, distribution, engine))"
  by pat_completeness auto
termination
  by (relation "measure (\<lambda>(L, arr, Count, i, ret_arr, distribution, engine). Count - i)") auto

declare prng_arr_loop.simps [simp del]

text \<open>
  \<open>return {}\<close> of a \<open>std::array<T, Count>\<close> value-initialises all \<open>Count\<close> elements, as
  does the declaration \<open>ret_arr{}\<close>.
\<close>

definition prng_random_arr_n ::
  "('d, 'r, 'e) stdlib \<Rightarrow> 'a \<Rightarrow> nat \<Rightarrow> 'a list \<Rightarrow> ('r, 'e) prng_statics option
     \<Rightarrow> fault + 'a list \<times> ('r, 'e) prng_statics option" where
  "prng_random_arr_n L dflt Count arr tls =
     (if arr = [] then Inr (replicate Count dflt, tls)
      else if Count = 0 then Inr (replicate Count dflt, tls)
      else
        (let ret_arr = replicate Count dflt;
             distribution = uid_new L 0 (length arr - 1);
             st = impl_prng_engine L tls
         in case prng_arr_loop L arr Count 0 ret_arr distribution (generator st) of
              Inl f \<Rightarrow> Inl f
            | Inr (ret_arr', distribution', engine') \<Rightarrow>
                Inr (ret_arr', Some (st\<lparr>generator := engine'\<rparr>))))"

section \<open>Class \<open>random_trng\<close>\<close>

text \<open>
  \<open>_impl_trng_engine\<close> has one \<open>static thread_local std::random_device\<close>; the thread's
  storage is \<open>None\<close> until the first call constructs it.
\<close>

definition impl_trng_engine :: "('d, 'r, 'e) stdlib \<Rightarrow> 'r option \<Rightarrow> 'r" where
  "impl_trng_engine L tls =
     (case tls of Some device \<Rightarrow> device | None \<Rightarrow> random_device_new L)"

definition trng_random_vec ::
  "('d, 'r, 'e) stdlib \<Rightarrow> 'a \<Rightarrow> 'a list \<Rightarrow> 'r option \<Rightarrow> fault + 'a \<times> 'r option" where
  "trng_random_vec L dflt vec tls =
     (if vec = [] then Inr (dflt, tls)
      else
        (let distribution = uid_new L 0 (length vec - 1);
             device = impl_trng_engine L tls
         in case uid_call_rd L distribution device of
              (k, distribution', device') \<Rightarrow>
                (case subscript vec k of
                   Inl f \<Rightarrow> Inl f
                 | Inr x \<Rightarrow> Inr (x, Some device'))))"

function trng_vec_loop ::
  "('d, 'r, 'e) stdlib \<Rightarrow> 'a list \<Rightarrow> nat \<Rightarrow> nat \<Rightarrow> 'a list \<Rightarrow> 'd \<Rightarrow> 'r
     \<Rightarrow> fault + 'a list \<times> 'd \<times> 'r" where
  "trng_vec_loop L vec count i ret_vec distribution engine =
     (if i < count then
        (case uid_call_rd L distribution engine of
           (k, distribution', engine') \<Rightarrow>
             (case subscript vec k of
                Inl f \<Rightarrow> Inl f
              | Inr x \<Rightarrow>
                  trng_vec_loop L vec count (Suc i) (ret_vec @ [x]) distribution' engine'))
      else Inr (ret_vec, distribution, engine))"
  by pat_completeness auto
termination
  by (relation "measure (\<lambda>(L, vec, count, i, ret_vec, distribution, engine). count - i)") auto

declare trng_vec_loop.simps [simp del]

definition trng_random_vec_n ::
  "('d, 'r, 'e) stdlib \<Rightarrow> 'a \<Rightarrow> 'a list \<Rightarrow> nat \<Rightarrow> 'r option
     \<Rightarrow> fault + 'a list \<times> 'r option" where
  "trng_random_vec_n L dflt vec count tls =
     (if vec = [] then Inr ([], tls)
      else if count = 0 then Inr ([], tls)
      else if count = 1 then
        (case trng_random_vec L dflt vec tls of
           Inl f \<Rightarrow> Inl f
         | Inr (x, tls') \<Rightarrow> Inr ([x], tls'))
      else
        (let ret_vec = []
         in case vector_reserve L ret_vec count of
           Inl f \<Rightarrow> Inl f
         | Inr ret_vec \<Rightarrow>
             (let distribution = uid_new L 0 (length vec - 1);
                  engine = impl_trng_engine L tls
              in case trng_vec_loop L vec count 0 ret_vec distribution engine of
                   Inl f \<Rightarrow> Inl f
                 | Inr (ret_vec', distribution', engine') \<Rightarrow>
                     Inr (ret_vec', Some engine'))))"

definition trng_random_arr ::
  "('d, 'r, 'e) stdlib \<Rightarrow> 'a \<Rightarrow> 'a list \<Rightarrow> 'r option \<Rightarrow> fault + 'a \<times> 'r option" where
  "trng_random_arr L dflt arr tls =
     (if arr = [] then Inr (dflt, tls)
      else
        (let distribution = uid_new L 0 (length arr - 1);
             device = impl_trng_engine L tls
         in case uid_call_rd L distribution device of
              (k, distribution', device') \<Rightarrow>
                (case subscript arr k of
                   Inl f \<Rightarrow> Inl f
                 | Inr x \<Rightarrow> Inr (x, Some device'))))"

function trng_arr_loop ::
  "('d, 'r, 'e) stdlib \<Rightarrow> 'a list \<Rightarrow> nat \<Rightarrow> nat \<Rightarrow> 'a list \<Rightarrow> 'd \<Rightarrow> 'r
     \<Rightarrow> fault + 'a list \<times> 'd \<times> 'r" where
  "trng_arr_loop L arr Count i ret_arr distribution engine =
     (if i < Count then
        (case uid_call_rd L distribution engine of
           (k, distribution', engine') \<Rightarrow>
             (case subscript arr k of
                Inl f \<Rightarrow> Inl f
              | Inr x \<Rightarrow>
                  (if i < length ret_arr
                   then trng_arr_loop L arr Count (Suc i) (ret_arr[i := x])
                          distribution' engine'
                   else Inl Index_Out_Of_Range)))
      else Inr (ret_arr, distribution, engine))"
  by pat_completeness auto
termination
  by (relation "measure (\<lambda>(L, arr, Count, i, ret_arr, distribution, engine). Count - i)") auto

declare trng_arr_loop.simps [simp del]

definition trng_random_arr_n ::
  "('d, 'r, 'e) stdlib \<Rightarrow> 'a \<Rightarrow> nat \<Rightarrow> 'a list \<Rightarrow> 'r option
     \<Rightarrow> fault + 'a list \<times> 'r option" where
  "trng_random_arr_n L dflt Count arr tls =
     (if arr = [] then Inr (replicate Count dflt, tls)
      else if Count = 0 then Inr (replicate Count dflt, tls)
      else
        (let ret_arr = replicate Count dflt;
             distribution = uid_new L 0 (length arr - 1);
             engine = impl_trng_engine L tls
         in case trng_arr_loop L arr Count 0 ret_arr distribution engine of
              Inl f \<Rightarrow> Inl f
            | Inr (ret_arr', distribution', engine') \<Rightarrow> Inr (ret_arr', Some engine')))"

section \<open>What the code relies on from \<open>std::uniform_int_distribution\<close>\<close>

text \<open>
  The C++ standard specifies \<open>uniform_int_distribution{a, b}\<close> by its two parameters, read
  back by the members \<open>a()\<close> and \<open>b()\<close>, and by the range of what it produces: every
  number drawn lies in the closed interval from \<open>a\<close> to \<open>b\<close>, provided \<open>a \<le> b\<close>. A call
  may change the object, but not its parameters.
\<close>

definition uid_contract :: "('d, 'r, 'e) stdlib \<Rightarrow> bool" where
  "uid_contract L \<longleftrightarrow>
     (\<forall>a b. uid_a L (uid_new L a b) = a \<and> uid_b L (uid_new L a b) = b) \<and>
     (\<forall>d g. uid_a L d \<le> uid_b L d \<longrightarrow>
        (case uid_call_mt L d g of
           (k, d', g') \<Rightarrow>
             uid_a L d \<le> k \<and> k \<le> uid_b L d \<and>
             uid_a L d' = uid_a L d \<and> uid_b L d' = uid_b L d)) \<and>
     (\<forall>d g. uid_a L d \<le> uid_b L d \<longrightarrow>
        (case uid_call_rd L d g of
           (k, d', g') \<Rightarrow>
             uid_a L d \<le> k \<and> k \<le> uid_b L d \<and>
             uid_a L d' = uid_a L d \<and> uid_b L d' = uid_b L d))"

text \<open>
  The numbers that \<open>n\<close> successive calls of the distribution draw from an engine, in the
  order of the calls, with the distribution and the engine as the last call leaves them.
\<close>

fun draws_mt :: "('d, 'r, 'e) stdlib \<Rightarrow> nat \<Rightarrow> 'd \<Rightarrow> 'e \<Rightarrow> nat list \<times> 'd \<times> 'e" where
  "draws_mt L 0 d g = ([], d, g)"
| "draws_mt L (Suc n) d g =
     (case uid_call_mt L d g of
        (k, d', g') \<Rightarrow>
          (case draws_mt L n d' g' of (ks, d'', g'') \<Rightarrow> (k # ks, d'', g'')))"

fun draws_rd :: "('d, 'r, 'e) stdlib \<Rightarrow> nat \<Rightarrow> 'd \<Rightarrow> 'r \<Rightarrow> nat list \<times> 'd \<times> 'r" where
  "draws_rd L 0 d g = ([], d, g)"
| "draws_rd L (Suc n) d g =
     (case uid_call_rd L d g of
        (k, d', g') \<Rightarrow>
          (case draws_rd L n d' g' of (ks, d'', g'') \<Rightarrow> (k # ks, d'', g'')))"

text \<open>
  Whether a call of the distribution leaves the distribution object as it found it.
\<close>

definition uid_stateless :: "('d, 'r, 'e) stdlib \<Rightarrow> bool" where
  "uid_stateless L \<longleftrightarrow>
     (\<forall>d g. fst (snd (uid_call_mt L d g)) = d) \<and>
     (\<forall>d g. fst (snd (uid_call_rd L d g)) = d)"

text \<open>
  The variant that the specification compares the multi-draw functions with: the same
  functions, except that the distribution object is constructed anew for each element
  instead of once before the loop.
\<close>

function prng_vec_loop_per_draw ::
  "('d, 'r, 'e) stdlib \<Rightarrow> 'a list \<Rightarrow> nat \<Rightarrow> nat \<Rightarrow> 'a list \<Rightarrow> 'e \<Rightarrow> fault + 'a list \<times> 'e" where
  "prng_vec_loop_per_draw L vec count i ret_vec engine =
     (if i < count then
        (case uid_call_mt L (uid_new L 0 (length vec - 1)) engine of
           (k, distribution', engine') \<Rightarrow>
             (case subscript vec k of
                Inl f \<Rightarrow> Inl f
              | Inr x \<Rightarrow> prng_vec_loop_per_draw L vec count (Suc i) (ret_vec @ [x]) engine'))
      else Inr (ret_vec, engine))"
  by pat_completeness auto
termination
  by (relation "measure (\<lambda>(L, vec, count, i, ret_vec, engine). count - i)") auto

declare prng_vec_loop_per_draw.simps [simp del]

definition prng_random_vec_n_per_draw ::
  "('d, 'r, 'e) stdlib \<Rightarrow> 'a \<Rightarrow> 'a list \<Rightarrow> nat \<Rightarrow> ('r, 'e) prng_statics option
     \<Rightarrow> fault + 'a list \<times> ('r, 'e) prng_statics option" where
  "prng_random_vec_n_per_draw L dflt vec count tls =
     (if vec = [] then Inr ([], tls)
      else if count = 0 then Inr ([], tls)
      else if count = 1 then
        (case prng_random_vec L dflt vec tls of
           Inl f \<Rightarrow> Inl f
         | Inr (x, tls') \<Rightarrow> Inr ([x], tls'))
      else
        (let ret_vec = []
         in case vector_reserve L ret_vec count of
           Inl f \<Rightarrow> Inl f
         | Inr ret_vec \<Rightarrow>
             (let st = impl_prng_engine L tls
              in case prng_vec_loop_per_draw L vec count 0 ret_vec (generator st) of
                   Inl f \<Rightarrow> Inl f
                 | Inr (ret_vec', engine') \<Rightarrow>
                     Inr (ret_vec', Some (st\<lparr>generator := engine'\<rparr>)))))"

function prng_arr_loop_per_draw ::
  "('d, 'r, 'e) stdlib \<Rightarrow> 'a list \<Rightarrow> nat \<Rightarrow> nat \<Rightarrow> 'a list \<Rightarrow> 'e \<Rightarrow> fault + 'a list \<times> 'e" where
  "prng_arr_loop_per_draw L arr Count i ret_arr engine =
     (if i < Count then
        (case uid_call_mt L (uid_new L 0 (length arr - 1)) engine of
           (k, distribution', engine') \<Rightarrow>
             (case subscript arr k of
                Inl f \<Rightarrow> Inl f
              | Inr x \<Rightarrow>
                  (if i < length ret_arr
                   then prng_arr_loop_per_draw L arr Count (Suc i) (ret_arr[i := x]) engine'
                   else Inl Index_Out_Of_Range)))
      else Inr (ret_arr, engine))"
  by pat_completeness auto
termination
  by (relation "measure (\<lambda>(L, arr, Count, i, ret_arr, engine). Count - i)") auto

declare prng_arr_loop_per_draw.simps [simp del]

definition prng_random_arr_n_per_draw ::
  "('d, 'r, 'e) stdlib \<Rightarrow> 'a \<Rightarrow> nat \<Rightarrow> 'a list \<Rightarrow> ('r, 'e) prng_statics option
     \<Rightarrow> fault + 'a list \<times> ('r, 'e) prng_statics option" where
  "prng_random_arr_n_per_draw L dflt Count arr tls =
     (if arr = [] then Inr (replicate Count dflt, tls)
      else if Count = 0 then Inr (replicate Count dflt, tls)
      else
        (let ret_arr = replicate Count dflt;
             st = impl_prng_engine L tls
         in case prng_arr_loop_per_draw L arr Count 0 ret_arr (generator st) of
              Inl f \<Rightarrow> Inl f
            | Inr (ret_arr', engine') \<Rightarrow>
                Inr (ret_arr', Some (st\<lparr>generator := engine'\<rparr>))))"

function trng_vec_loop_per_draw ::
  "('d, 'r, 'e) stdlib \<Rightarrow> 'a list \<Rightarrow> nat \<Rightarrow> nat \<Rightarrow> 'a list \<Rightarrow> 'r \<Rightarrow> fault + 'a list \<times> 'r" where
  "trng_vec_loop_per_draw L vec count i ret_vec engine =
     (if i < count then
        (case uid_call_rd L (uid_new L 0 (length vec - 1)) engine of
           (k, distribution', engine') \<Rightarrow>
             (case subscript vec k of
                Inl f \<Rightarrow> Inl f
              | Inr x \<Rightarrow> trng_vec_loop_per_draw L vec count (Suc i) (ret_vec @ [x]) engine'))
      else Inr (ret_vec, engine))"
  by pat_completeness auto
termination
  by (relation "measure (\<lambda>(L, vec, count, i, ret_vec, engine). count - i)") auto

declare trng_vec_loop_per_draw.simps [simp del]

definition trng_random_vec_n_per_draw ::
  "('d, 'r, 'e) stdlib \<Rightarrow> 'a \<Rightarrow> 'a list \<Rightarrow> nat \<Rightarrow> 'r option
     \<Rightarrow> fault + 'a list \<times> 'r option" where
  "trng_random_vec_n_per_draw L dflt vec count tls =
     (if vec = [] then Inr ([], tls)
      else if count = 0 then Inr ([], tls)
      else if count = 1 then
        (case trng_random_vec L dflt vec tls of
           Inl f \<Rightarrow> Inl f
         | Inr (x, tls') \<Rightarrow> Inr ([x], tls'))
      else
        (let ret_vec = []
         in case vector_reserve L ret_vec count of
           Inl f \<Rightarrow> Inl f
         | Inr ret_vec \<Rightarrow>
             (let engine = impl_trng_engine L tls
              in case trng_vec_loop_per_draw L vec count 0 ret_vec engine of
                   Inl f \<Rightarrow> Inl f
                 | Inr (ret_vec', engine') \<Rightarrow> Inr (ret_vec', Some engine'))))"

function trng_arr_loop_per_draw ::
  "('d, 'r, 'e) stdlib \<Rightarrow> 'a list \<Rightarrow> nat \<Rightarrow> nat \<Rightarrow> 'a list \<Rightarrow> 'r \<Rightarrow> fault + 'a list \<times> 'r" where
  "trng_arr_loop_per_draw L arr Count i ret_arr engine =
     (if i < Count then
        (case uid_call_rd L (uid_new L 0 (length arr - 1)) engine of
           (k, distribution', engine') \<Rightarrow>
             (case subscript arr k of
                Inl f \<Rightarrow> Inl f
              | Inr x \<Rightarrow>
                  (if i < length ret_arr
                   then trng_arr_loop_per_draw L arr Count (Suc i) (ret_arr[i := x]) engine'
                   else Inl Index_Out_Of_Range)))
      else Inr (ret_arr, engine))"
  by pat_completeness auto
termination
  by (relation "measure (\<lambda>(L, arr, Count, i, ret_arr, engine). Count - i)") auto

declare trng_arr_loop_per_draw.simps [simp del]

definition trng_random_arr_n_per_draw ::
  "('d, 'r, 'e) stdlib \<Rightarrow> 'a \<Rightarrow> nat \<Rightarrow> 'a list \<Rightarrow> 'r option
     \<Rightarrow> fault + 'a list \<times> 'r option" where
  "trng_random_arr_n_per_draw L dflt Count arr tls =
     (if arr = [] then Inr (replicate Count dflt, tls)
      else if Count = 0 then Inr (replicate Count dflt, tls)
      else
        (let ret_arr = replicate Count dflt;
             engine = impl_trng_engine L tls
         in case trng_arr_loop_per_draw L arr Count 0 ret_arr engine of
              Inl f \<Rightarrow> Inl f
            | Inr (ret_arr', engine') \<Rightarrow> Inr (ret_arr', Some engine')))"

text \<open>
  A small instance of the library interface, on which the theorems are exercised: engines
  are counters stepped by a linear congruence, and the distribution reduces the engine's
  output into its interval. \<open>size_t\<close> has 64 bits, and a vector holds up to
  \<open>PTRDIFF_MAX\<close> elements.
\<close>

definition lcg_lib :: "(nat \<times> nat, nat, nat) stdlib" where
  "lcg_lib =
     \<lparr>random_device_new = 7,
      random_device_call = (\<lambda>r. (r, (5 * r + 3) mod 16)),
      mt19937_64_new = (\<lambda>seed. seed),
      mt19937_64_call = (\<lambda>g. (g, (5 * g + 3) mod 16)),
      size_max = 18446744073709551615,
      vector_max_size = 9223372036854775807,
      uid_new = (\<lambda>a b. (a, b)),
      uid_a = fst,
      uid_b = snd,
      uid_call_mt = (\<lambda>d g. (fst d + g mod (snd d - fst d + 1), d, (5 * g + 3) mod 16)),
      uid_call_rd = (\<lambda>d g. (fst d + g mod (snd d - fst d + 1), d, (5 * g + 3) mod 16))\<rparr>"





section \<open>Facts about the library interface\<close>

lemma uid_contract_newD:
  assumes "uid_contract L"
  shows "uid_a L (uid_new L a b) = a" "uid_b L (uid_new L a b) = b"
  using assms by (simp_all add: uid_contract_def)

lemma uid_contract_mtD:
  assumes "uid_contract L" "uid_a L d \<le> uid_b L d" "uid_call_mt L d g = (k, d', g')"
  shows "uid_a L d \<le> k" "k \<le> uid_b L d" "uid_a L d' = uid_a L d" "uid_b L d' = uid_b L d"
proof -
  from assms(1) have "\<forall>d g. uid_a L d \<le> uid_b L d \<longrightarrow>
        (case uid_call_mt L d g of
           (k, d', g') \<Rightarrow>
             uid_a L d \<le> k \<and> k \<le> uid_b L d \<and>
             uid_a L d' = uid_a L d \<and> uid_b L d' = uid_b L d)"
    by (simp add: uid_contract_def)
  from this [rule_format, OF assms(2), of g]
  show "uid_a L d \<le> k" "k \<le> uid_b L d" "uid_a L d' = uid_a L d" "uid_b L d' = uid_b L d"
    by (simp_all add: assms(3))
qed

lemma uid_contract_rdD:
  assumes "uid_contract L" "uid_a L d \<le> uid_b L d" "uid_call_rd L d g = (k, d', g')"
  shows "uid_a L d \<le> k" "k \<le> uid_b L d" "uid_a L d' = uid_a L d" "uid_b L d' = uid_b L d"
proof -
  from assms(1) have "\<forall>d g. uid_a L d \<le> uid_b L d \<longrightarrow>
        (case uid_call_rd L d g of
           (k, d', g') \<Rightarrow>
             uid_a L d \<le> k \<and> k \<le> uid_b L d \<and>
             uid_a L d' = uid_a L d \<and> uid_b L d' = uid_b L d)"
    by (simp add: uid_contract_def)
  from this [rule_format, OF assms(2), of g]
  show "uid_a L d \<le> k" "k \<le> uid_b L d" "uid_a L d' = uid_a L d" "uid_b L d' = uid_b L d"
    by (simp_all add: assms(3))
qed

lemma lcg_lib_contract: "uid_contract lcg_lib"
proof -
  have "a + g mod (b - a + 1) \<le> b" if "a \<le> b" for a b g :: nat
  proof -
    have "g mod (b - a + 1) < b - a + 1" by simp
    with that show ?thesis by linarith
  qed
  then show ?thesis
    by (simp add: uid_contract_def lcg_lib_def)
qed

lemma draws_mt_length: "length (fst (draws_mt L n d g)) = n"
proof (induction n arbitrary: d g)
  case 0
  then show ?case by simp
next
  case (Suc n)
  obtain k d' g' where c: "uid_call_mt L d g = (k, d', g')"
    by (cases "uid_call_mt L d g") auto
  from Suc.IH [of d' g'] show ?case
    by (auto simp: c split: prod.splits)
qed

lemma draws_rd_length: "length (fst (draws_rd L n d g)) = n"
proof (induction n arbitrary: d g)
  case 0
  then show ?case by simp
next
  case (Suc n)
  obtain k d' g' where c: "uid_call_rd L d g = (k, d', g')"
    by (cases "uid_call_rd L d g") auto
  from Suc.IH [of d' g'] show ?case
    by (auto simp: c split: prod.splits)
qed

lemma draws_mt_range:
  assumes "uid_contract L" "uid_a L d \<le> uid_b L d"
  shows "\<forall>k \<in> set (fst (draws_mt L n d g)). uid_a L d \<le> k \<and> k \<le> uid_b L d"
  using assms(2)
proof (induction n arbitrary: d g)
  case 0
  then show ?case by simp
next
  case (Suc n)
  obtain k d' g' where c: "uid_call_mt L d g = (k, d', g')"
    by (cases "uid_call_mt L d g") auto
  note uid_contract_mtD [OF assms(1) Suc.prems c]
  then have k: "uid_a L d \<le> k" "k \<le> uid_b L d"
    and p: "uid_a L d' = uid_a L d" "uid_b L d' = uid_b L d"
    by simp_all
  from Suc.IH [of d' g'] p Suc.prems
  have "\<forall>j \<in> set (fst (draws_mt L n d' g')). uid_a L d \<le> j \<and> j \<le> uid_b L d"
    by simp
  with k c show ?case
    by (auto split: prod.splits)
qed

lemma draws_rd_range:
  assumes "uid_contract L" "uid_a L d \<le> uid_b L d"
  shows "\<forall>k \<in> set (fst (draws_rd L n d g)). uid_a L d \<le> k \<and> k \<le> uid_b L d"
  using assms(2)
proof (induction n arbitrary: d g)
  case 0
  then show ?case by simp
next
  case (Suc n)
  obtain k d' g' where c: "uid_call_rd L d g = (k, d', g')"
    by (cases "uid_call_rd L d g") auto
  note uid_contract_rdD [OF assms(1) Suc.prems c]
  then have k: "uid_a L d \<le> k" "k \<le> uid_b L d"
    and p: "uid_a L d' = uid_a L d" "uid_b L d' = uid_b L d"
    by simp_all
  from Suc.IH [of d' g'] p Suc.prems
  have "\<forall>j \<in> set (fst (draws_rd L n d' g')). uid_a L d \<le> j \<and> j \<le> uid_b L d"
    by simp
  with k c show ?case
    by (auto split: prod.splits)
qed

text \<open>
  The draws of a distribution constructed as the source does, \<open>{0, size() - 1}\<close> over a
  non-empty container, are indices of the container.
\<close>

lemma draws_mt_in_bounds:
  assumes "uid_contract L" "xs \<noteq> []"
  shows "\<forall>k \<in> set (fst (draws_mt L n (uid_new L 0 (length xs - 1)) g)). k < length xs"
proof -
  let ?d = "uid_new L 0 (length xs - 1)"
  have ab: "uid_a L ?d = 0" "uid_b L ?d = length xs - 1"
    using uid_contract_newD [OF assms(1)] by simp_all
  then have le: "uid_a L ?d \<le> uid_b L ?d" by simp
  show ?thesis
  proof
    fix k
    assume "k \<in> set (fst (draws_mt L n ?d g))"
    with draws_mt_range [OF assms(1) le, of n g] have "k \<le> uid_b L ?d" by blast
    with ab have "k \<le> length xs - 1" by simp
    with assms(2) show "k < length xs" by (cases xs) simp_all
  qed
qed

lemma draws_rd_in_bounds:
  assumes "uid_contract L" "xs \<noteq> []"
  shows "\<forall>k \<in> set (fst (draws_rd L n (uid_new L 0 (length xs - 1)) g)). k < length xs"
proof -
  let ?d = "uid_new L 0 (length xs - 1)"
  have ab: "uid_a L ?d = 0" "uid_b L ?d = length xs - 1"
    using uid_contract_newD [OF assms(1)] by simp_all
  then have le: "uid_a L ?d \<le> uid_b L ?d" by simp
  show ?thesis
  proof
    fix k
    assume "k \<in> set (fst (draws_rd L n ?d g))"
    with draws_rd_range [OF assms(1) le, of n g] have "k \<le> uid_b L ?d" by blast
    with ab have "k \<le> length xs - 1" by simp
    with assms(2) show "k < length xs" by (cases xs) simp_all
  qed
qed

section \<open>The loops\<close>

lemma prng_vec_loop_draws:
  assumes "\<forall>k \<in> set (fst (draws_mt L (count - i) d g)). k < length vec" "i \<le> count"
  shows "prng_vec_loop L vec count i ret d g =
           (case draws_mt L (count - i) d g of
              (ks, d', g') \<Rightarrow> Inr (ret @ map ((!) vec) ks, d', g'))"
  using assms
proof (induction L vec count i ret d g rule: prng_vec_loop.induct)
  case (1 L vec count i ret_vec distribution engine)
  show ?case
  proof (cases "i < count")
    case False
    then show ?thesis by (simp add: prng_vec_loop.simps)
  next
    case True
    then have s: "count - i = Suc (count - Suc i)" by simp
    obtain k d' g' where c: "uid_call_mt L distribution engine = (k, d', g')"
      by (cases "uid_call_mt L distribution engine") auto
    from "1.prems"(1) c have k: "k < length vec"
      and rest: "\<forall>j \<in> set (fst (draws_mt L (count - Suc i) d' g')). j < length vec"
      unfolding s by (auto split: prod.splits)
    have sub: "subscript vec k = Inr (vec ! k)"
      using k by (simp add: subscript_def)
    from True have le: "Suc i \<le> count" by simp
    have "prng_vec_loop L vec count (Suc i) (ret_vec @ [vec ! k]) d' g' =
            (case draws_mt L (count - Suc i) d' g' of
               (ks, d'', g'') \<Rightarrow> Inr ((ret_vec @ [vec ! k]) @ map ((!) vec) ks, d'', g''))"
      using "1.IH" [OF True c [symmetric] refl sub rest le] .
    then show ?thesis
      unfolding s
      by (subst prng_vec_loop.simps) (simp add: True c sub split: prod.splits)
  qed
qed

lemma trng_vec_loop_draws:
  assumes "\<forall>k \<in> set (fst (draws_rd L (count - i) d g)). k < length vec" "i \<le> count"
  shows "trng_vec_loop L vec count i ret d g =
           (case draws_rd L (count - i) d g of
              (ks, d', g') \<Rightarrow> Inr (ret @ map ((!) vec) ks, d', g'))"
  using assms
proof (induction L vec count i ret d g rule: trng_vec_loop.induct)
  case (1 L vec count i ret_vec distribution engine)
  show ?case
  proof (cases "i < count")
    case False
    then show ?thesis by (simp add: trng_vec_loop.simps)
  next
    case True
    then have s: "count - i = Suc (count - Suc i)" by simp
    obtain k d' g' where c: "uid_call_rd L distribution engine = (k, d', g')"
      by (cases "uid_call_rd L distribution engine") auto
    from "1.prems"(1) c have k: "k < length vec"
      and rest: "\<forall>j \<in> set (fst (draws_rd L (count - Suc i) d' g')). j < length vec"
      unfolding s by (auto split: prod.splits)
    have sub: "subscript vec k = Inr (vec ! k)"
      using k by (simp add: subscript_def)
    from True have le: "Suc i \<le> count" by simp
    have "trng_vec_loop L vec count (Suc i) (ret_vec @ [vec ! k]) d' g' =
            (case draws_rd L (count - Suc i) d' g' of
               (ks, d'', g'') \<Rightarrow> Inr ((ret_vec @ [vec ! k]) @ map ((!) vec) ks, d'', g''))"
      using "1.IH" [OF True c [symmetric] refl sub rest le] .
    then show ?thesis
      unfolding s
      by (subst trng_vec_loop.simps) (simp add: True c sub split: prod.splits)
  qed
qed

lemma map_nth_members:
  assumes "\<forall>k \<in> set ks. k < length xs"
  shows "set (map ((!) xs) ks) \<subseteq> set xs"
  using assms by auto

text \<open>
  Claim C1, as the code has it. For a non-empty vector and a count of at least two that
  is a \<open>size_t\<close> and does not exceed \<open>max_size()\<close> of the result,
  \<open>random(vec, count)\<close> of both classes returns, and does so without a fault; the
  vector returned has exactly \<open>count\<close> elements, each of them an element of the input,
  and its elements are the input's elements at the indices drawn, in the order of the
  draws. The distribution is assumed to keep to its interval.
\<close>

theorem pick_n_length_members_order:
  assumes "uid_contract L" and "vec \<noteq> []" and "2 \<le> count"
    and "count \<le> size_max L" and "count \<le> vector_max_size L"
  shows "(\<exists>ret tls'. prng_random_vec_n L dflt vec count ptls = Inr (ret, tls') \<and>
            length ret = count \<and> set ret \<subseteq> set vec \<and>
            ret = map ((!) vec)
                    (fst (draws_mt L count (uid_new L 0 (length vec - 1))
                            (generator (impl_prng_engine L ptls))))) \<and>
         (\<exists>ret tls'. trng_random_vec_n L dflt vec count ttls = Inr (ret, tls') \<and>
            length ret = count \<and> set ret \<subseteq> set vec \<and>
            ret = map ((!) vec)
                    (fst (draws_rd L count (uid_new L 0 (length vec - 1))
                            (impl_trng_engine L ttls))))"
proof
  let ?d = "uid_new L 0 (length vec - 1)"
  from assms(3) have c: "count \<noteq> 0" "count \<noteq> 1" by simp_all
  {
    let ?g = "generator (impl_prng_engine L ptls)"
    obtain ks d' g' where dr: "draws_mt L count ?d ?g = (ks, d', g')"
      by (cases "draws_mt L count ?d ?g") auto
    have b: "\<forall>k \<in> set (fst (draws_mt L (count - 0) ?d ?g)). k < length vec"
      using draws_mt_in_bounds [OF assms(1,2), of count ?g] by simp
    have "prng_vec_loop L vec count 0 [] ?d ?g = Inr (map ((!) vec) ks, d', g')"
      using prng_vec_loop_draws [OF b, of "[]"] dr by simp
    then have r: "prng_random_vec_n L dflt vec count ptls =
        Inr (map ((!) vec) ks, Some ((impl_prng_engine L ptls)\<lparr>generator := g'\<rparr>))"
      using assms(2,5) c by (simp add: prng_random_vec_n_def vector_reserve_def)
    have "length ks = count"
      using draws_mt_length [of L count ?d ?g] dr by simp
    moreover have "set (map ((!) vec) ks) \<subseteq> set vec"
      using b dr by (intro map_nth_members) simp
    ultimately show "\<exists>ret tls'. prng_random_vec_n L dflt vec count ptls = Inr (ret, tls') \<and>
            length ret = count \<and> set ret \<subseteq> set vec \<and>
            ret = map ((!) vec) (fst (draws_mt L count ?d ?g))"
      using r dr by simp
  }
  {
    let ?g = "impl_trng_engine L ttls"
    obtain ks d' g' where dr: "draws_rd L count ?d ?g = (ks, d', g')"
      by (cases "draws_rd L count ?d ?g") auto
    have b: "\<forall>k \<in> set (fst (draws_rd L (count - 0) ?d ?g)). k < length vec"
      using draws_rd_in_bounds [OF assms(1,2), of count ?g] by simp
    have "trng_vec_loop L vec count 0 [] ?d ?g = Inr (map ((!) vec) ks, d', g')"
      using trng_vec_loop_draws [OF b, of "[]"] dr by simp
    then have r: "trng_random_vec_n L dflt vec count ttls = Inr (map ((!) vec) ks, Some g')"
      using assms(2,5) c by (simp add: trng_random_vec_n_def vector_reserve_def)
    have "length ks = count"
      using draws_rd_length [of L count ?d ?g] dr by simp
    moreover have "set (map ((!) vec) ks) \<subseteq> set vec"
      using b dr by (intro map_nth_members) simp
    ultimately show "\<exists>ret tls'. trng_random_vec_n L dflt vec count ttls = Inr (ret, tls') \<and>
            length ret = count \<and> set ret \<subseteq> set vec \<and>
            ret = map ((!) vec) (fst (draws_rd L count ?d ?g))"
      using r dr by simp
  }
qed

theorem pick_n_length_members_order_witness:
  "uid_contract lcg_lib \<and> [10, 20, 30 :: nat] \<noteq> [] \<and> (2::nat) \<le> 5 \<and>
   5 \<le> size_max lcg_lib \<and> 5 \<le> vector_max_size lcg_lib \<and>
   ((\<exists>ret tls'. prng_random_vec_n lcg_lib 0 [10, 20, 30 :: nat] 5 None = Inr (ret, tls') \<and>
            length ret = 5 \<and> set ret \<subseteq> set [10, 20, 30] \<and>
            ret = map ((!) [10, 20, 30])
                    (fst (draws_mt lcg_lib 5 (uid_new lcg_lib 0 (length [10, 20, 30 :: nat] - 1))
                            (generator (impl_prng_engine lcg_lib None))))) \<and>
    (\<exists>ret tls'. trng_random_vec_n lcg_lib 0 [10, 20, 30 :: nat] 5 None = Inr (ret, tls') \<and>
            length ret = 5 \<and> set ret \<subseteq> set [10, 20, 30] \<and>
            ret = map ((!) [10, 20, 30])
                    (fst (draws_rd lcg_lib 5 (uid_new lcg_lib 0 (length [10, 20, 30 :: nat] - 1))
                            (impl_trng_engine lcg_lib None)))))"
proof -
  have h1: "uid_contract lcg_lib" by (rule lcg_lib_contract)
  have h2: "[10, 20, 30 :: nat] \<noteq> []" by simp
  have h3: "(2::nat) \<le> 5" by simp
  have h4: "5 \<le> size_max lcg_lib" by (simp add: lcg_lib_def)
  have h5: "5 \<le> vector_max_size lcg_lib" by (simp add: lcg_lib_def)
  note pick_n_length_members_order [OF h1 h2 h3 h4 h5, of 0 None None]
  then show ?thesis
    by (rule conjI [OF h1 conjI [OF h2 conjI [OF h3 conjI [OF h4 conjI [OF h5]]]]])
qed

text \<open>
  Without the bound the claim fails: \<open>SIZE_MAX\<close> is a count that \<open>random(vec, count)\<close>
  can be called with, it exceeds \<open>max_size()\<close> of any vector, and
  \<open>ret_vec.reserve(count)\<close> throws before anything is drawn.
\<close>

theorem pick_n_count_beyond_max_size:
  "uid_contract lcg_lib \<and> [10, 20, 30 :: nat] \<noteq> [] \<and>
   (2::nat) \<le> 18446744073709551615 \<and> 18446744073709551615 \<le> size_max lcg_lib \<and>
   prng_random_vec_n lcg_lib 0 [10, 20, 30 :: nat] 18446744073709551615 None =
     Inl Length_Error \<and>
   trng_random_vec_n lcg_lib 0 [10, 20, 30 :: nat] 18446744073709551615 None =
     Inl Length_Error"
proof -
  have "size_max lcg_lib = 18446744073709551615"
    and "vector_max_size lcg_lib = 9223372036854775807"
    by (simp_all add: lcg_lib_def)
  then show ?thesis
    by (simp add: lcg_lib_contract prng_random_vec_n_def trng_random_vec_n_def
        vector_reserve_def)
qed


lemma index_in_bounds:
  assumes "uid_contract L" and "S \<noteq> []"
  shows "uid_a L (uid_new L 0 (length S - 1)) \<le> uid_b L (uid_new L 0 (length S - 1))"
    and "uid_b L (uid_new L 0 (length S - 1)) = length S - 1"
    and "k \<le> length S - 1 \<Longrightarrow> k < length S"
proof -
  show "uid_a L (uid_new L 0 (length S - 1)) \<le> uid_b L (uid_new L 0 (length S - 1))"
    using uid_contract_newD [OF assms(1)] by simp
  show "uid_b L (uid_new L 0 (length S - 1)) = length S - 1"
    using uid_contract_newD [OF assms(1)] by simp
  show "k < length S" if "k \<le> length S - 1"
    using that assms(2) by (cases S) simp_all
qed

lemma prng_pick_one_draw:
  assumes "uid_contract L" and "S \<noteq> []"
    and "uid_call_mt L (uid_new L 0 (length S - 1)) (generator (impl_prng_engine L ptls)) =
           (k, d', g')"
  shows "k \<le> length S - 1"
    and "prng_random_vec L dflt S ptls =
           Inr (S ! k, Some ((impl_prng_engine L ptls)\<lparr>generator := g'\<rparr>))"
    and "prng_random_arr L dflt S ptls =
           Inr (S ! k, Some ((impl_prng_engine L ptls)\<lparr>generator := g'\<rparr>))"
proof -
  note b = index_in_bounds [OF assms(1,2)]
  from uid_contract_mtD(2) [OF assms(1) b(1) assms(3)] b(2)
  show k: "k \<le> length S - 1" by simp
  then have sub: "subscript S k = Inr (S ! k)"
    by (simp add: subscript_def b(3))
  from sub assms(2,3)
  show "prng_random_vec L dflt S ptls =
           Inr (S ! k, Some ((impl_prng_engine L ptls)\<lparr>generator := g'\<rparr>))"
    by (simp add: prng_random_vec_def)
  from sub assms(2,3)
  show "prng_random_arr L dflt S ptls =
           Inr (S ! k, Some ((impl_prng_engine L ptls)\<lparr>generator := g'\<rparr>))"
    by (simp add: prng_random_arr_def)
qed

lemma trng_pick_one_draw:
  assumes "uid_contract L" and "S \<noteq> []"
    and "uid_call_rd L (uid_new L 0 (length S - 1)) (impl_trng_engine L ttls) = (k, d', g')"
  shows "k \<le> length S - 1"
    and "trng_random_vec L dflt S ttls = Inr (S ! k, Some g')"
    and "trng_random_arr L dflt S ttls = Inr (S ! k, Some g')"
proof -
  note b = index_in_bounds [OF assms(1,2)]
  from uid_contract_rdD(2) [OF assms(1) b(1) assms(3)] b(2)
  show k: "k \<le> length S - 1" by simp
  then have sub: "subscript S k = Inr (S ! k)"
    by (simp add: subscript_def b(3))
  from sub assms(2,3)
  show "trng_random_vec L dflt S ttls = Inr (S ! k, Some g')"
    by (simp add: trng_random_vec_def)
  from sub assms(2,3)
  show "trng_random_arr L dflt S ttls = Inr (S ! k, Some g')"
    by (simp add: trng_random_arr_def)
qed

text \<open>
  Claim C2. For a non-empty container, the index that \<open>random(vec)\<close> and \<open>random(arr)\<close>
  of both classes draw is at most \<open>size() - 1\<close>, so the element access is in bounds, and
  the value returned is the element at that index, an element of the container. The
  distribution is assumed to keep to its interval.
\<close>

theorem pick_one_member:
  assumes "uid_contract L" and "S \<noteq> []"
  shows "(let k = fst (uid_call_mt L (uid_new L 0 (length S - 1))
                        (generator (impl_prng_engine L ptls)))
          in k \<le> length S - 1 \<and> S ! k \<in> set S \<and>
             (\<exists>t. prng_random_vec L dflt S ptls = Inr (S ! k, t)) \<and>
             (\<exists>t. prng_random_arr L dflt S ptls = Inr (S ! k, t))) \<and>
         (let k = fst (uid_call_rd L (uid_new L 0 (length S - 1)) (impl_trng_engine L ttls))
          in k \<le> length S - 1 \<and> S ! k \<in> set S \<and>
             (\<exists>t. trng_random_vec L dflt S ttls = Inr (S ! k, t)) \<and>
             (\<exists>t. trng_random_arr L dflt S ttls = Inr (S ! k, t)))"
proof -
  let ?d = "uid_new L 0 (length S - 1)"
  obtain k d' g' where c: "uid_call_mt L ?d (generator (impl_prng_engine L ptls)) = (k, d', g')"
    by (cases "uid_call_mt L ?d (generator (impl_prng_engine L ptls))") auto
  obtain j e' r' where e: "uid_call_rd L ?d (impl_trng_engine L ttls) = (j, e', r')"
    by (cases "uid_call_rd L ?d (impl_trng_engine L ttls)") auto
  note p = prng_pick_one_draw [OF assms c]
  note t = trng_pick_one_draw [OF assms e]
  from p(1) t(1) have "S ! k \<in> set S" "S ! j \<in> set S"
    by (simp_all add: index_in_bounds(3) [OF assms])
  with p t show ?thesis
    unfolding Let_def c e fst_conv by simp
qed

theorem pick_one_member_witness:
  "uid_contract lcg_lib \<and> ''abc'' \<noteq> [] \<and>
   ((let k = fst (uid_call_mt lcg_lib (uid_new lcg_lib 0 (length ''abc'' - 1))
                        (generator (impl_prng_engine lcg_lib None)))
          in k \<le> length ''abc'' - 1 \<and> ''abc'' ! k \<in> set ''abc'' \<and>
             (\<exists>t. prng_random_vec lcg_lib (CHR ''z'') ''abc'' None = Inr (''abc'' ! k, t)) \<and>
             (\<exists>t. prng_random_arr lcg_lib (CHR ''z'') ''abc'' None = Inr (''abc'' ! k, t))) \<and>
         (let k = fst (uid_call_rd lcg_lib (uid_new lcg_lib 0 (length ''abc'' - 1))
                        (impl_trng_engine lcg_lib (Some 5)))
          in k \<le> length ''abc'' - 1 \<and> ''abc'' ! k \<in> set ''abc'' \<and>
             (\<exists>t. trng_random_vec lcg_lib (CHR ''z'') ''abc'' (Some 5) = Inr (''abc'' ! k, t)) \<and>
             (\<exists>t. trng_random_arr lcg_lib (CHR ''z'') ''abc'' (Some 5) = Inr (''abc'' ! k, t))))"
proof -
  have h1: "uid_contract lcg_lib" by (rule lcg_lib_contract)
  have h2: "''abc'' \<noteq> []" by simp
  note pick_one_member [OF h1 h2, of None "CHR ''z''" "Some 5"]
  then show ?thesis
    by (rule conjI [OF h1 conjI [OF h2]])
qed

text \<open>
  Claim C3. On an empty vector, \<open>random(vec)\<close> returns the value-initialised element and
  \<open>random(vec, c)\<close> returns an empty vector for every count \<open>c\<close>; on any vector,
  \<open>random(vec, 0)\<close> returns an empty vector, as \<open>random<0>(arr)\<close> returns an empty
  array on any array. Each of these calls returns normally, with the thread-local storage
  as it was, and this holds for both classes.
\<close>

theorem empty_input_or_zero_count:
  "prng_random_vec L dflt [] ptls = Inr (dflt, ptls) \<and>
   trng_random_vec L dflt [] ttls = Inr (dflt, ttls) \<and>
   prng_random_vec_n L dflt [] c ptls = Inr ([], ptls) \<and>
   trng_random_vec_n L dflt [] c ttls = Inr ([], ttls) \<and>
   prng_random_vec_n L dflt S 0 ptls = Inr ([], ptls) \<and>
   trng_random_vec_n L dflt S 0 ttls = Inr ([], ttls) \<and>
   prng_random_arr_n L dflt 0 S ptls = Inr ([], ptls) \<and>
   trng_random_arr_n L dflt 0 S ttls = Inr ([], ttls)"
  by (simp add: prng_random_vec_def trng_random_vec_def prng_random_vec_n_def
      trng_random_vec_n_def prng_random_arr_n_def trng_random_arr_n_def)

text \<open>
  Claim C4. For a non-empty vector, \<open>random(vec, 1)\<close> returns the one-element vector
  holding the value that \<open>random(vec)\<close> returns from the same thread-local state, and
  leaves the thread-local state as \<open>random(vec)\<close> does; in both classes. The
  distribution is assumed to keep to its interval, so that both calls return.
\<close>

theorem pick_n_one_defers_to_pick_one:
  assumes "uid_contract L" and "S \<noteq> []"
  shows "(\<exists>x t. prng_random_vec L dflt S ptls = Inr (x, t) \<and>
                prng_random_vec_n L dflt S 1 ptls = Inr ([x], t)) \<and>
         (\<exists>x t. trng_random_vec L dflt S ttls = Inr (x, t) \<and>
                trng_random_vec_n L dflt S 1 ttls = Inr ([x], t))"
proof -
  let ?d = "uid_new L 0 (length S - 1)"
  obtain k d' g' where c: "uid_call_mt L ?d (generator (impl_prng_engine L ptls)) = (k, d', g')"
    by (cases "uid_call_mt L ?d (generator (impl_prng_engine L ptls))") auto
  obtain j e' r' where e: "uid_call_rd L ?d (impl_trng_engine L ttls) = (j, e', r')"
    by (cases "uid_call_rd L ?d (impl_trng_engine L ttls)") auto
  note p = prng_pick_one_draw(2) [OF assms c]
  note q = trng_pick_one_draw(2) [OF assms e]
  from p assms(2) have "prng_random_vec_n L dflt S 1 ptls =
      Inr ([S ! k], Some ((impl_prng_engine L ptls)\<lparr>generator := g'\<rparr>))"
    by (simp add: prng_random_vec_n_def)
  moreover from q assms(2) have "trng_random_vec_n L dflt S 1 ttls = Inr ([S ! j], Some r')"
    by (simp add: trng_random_vec_n_def)
  ultimately show ?thesis using p q by simp
qed

theorem pick_n_one_defers_to_pick_one_witness:
  "uid_contract lcg_lib \<and> [4, 5 :: int] \<noteq> [] \<and>
   ((\<exists>x t. prng_random_vec lcg_lib 0 [4, 5 :: int] None = Inr (x, t) \<and>
                prng_random_vec_n lcg_lib 0 [4, 5 :: int] 1 None = Inr ([x], t)) \<and>
    (\<exists>x t. trng_random_vec lcg_lib 0 [4, 5 :: int] (Some 2) = Inr (x, t) \<and>
                trng_random_vec_n lcg_lib 0 [4, 5 :: int] 1 (Some 2) = Inr ([x], t)))"
proof -
  have h1: "uid_contract lcg_lib" by (rule lcg_lib_contract)
  have h2: "[4, 5 :: int] \<noteq> []" by simp
  note pick_n_one_defers_to_pick_one [OF h1 h2, of 0 None "Some 2"]
  then show ?thesis
    by (rule conjI [OF h1 conjI [OF h2]])
qed

section \<open>Reusing the distribution object\<close>

lemma uid_stateless_mtD:
  assumes "uid_stateless L" "uid_call_mt L d g = (k, d', g')"
  shows "d' = d"
proof -
  from assms(1) have "fst (snd (uid_call_mt L d g)) = d"
    by (simp add: uid_stateless_def)
  with assms(2) show ?thesis by simp
qed

lemma uid_stateless_rdD:
  assumes "uid_stateless L" "uid_call_rd L d g = (k, d', g')"
  shows "d' = d"
proof -
  from assms(1) have "fst (snd (uid_call_rd L d g)) = d"
    by (simp add: uid_stateless_def)
  with assms(2) show ?thesis by simp
qed

lemma prng_vec_loop_per_draw_eq:
  assumes "uid_stateless L"
  shows "prng_vec_loop L vec count i ret (uid_new L 0 (length vec - 1)) g =
           (case prng_vec_loop_per_draw L vec count i ret g of
              Inl f \<Rightarrow> Inl f
            | Inr (ret', g') \<Rightarrow> Inr (ret', uid_new L 0 (length vec - 1), g'))"
  using assms
proof (induction L vec count i ret g rule: prng_vec_loop_per_draw.induct)
  case (1 L vec count i ret_vec engine)
  let ?d = "uid_new L 0 (length vec - 1)"
  show ?case
  proof (cases "i < count")
    case False
    then show ?thesis
      by (simp add: prng_vec_loop.simps prng_vec_loop_per_draw.simps)
  next
    case True
    obtain k d' g' where c: "uid_call_mt L ?d engine = (k, d', g')"
      by (cases "uid_call_mt L ?d engine") auto
    have d': "d' = ?d"
      using uid_stateless_mtD [OF "1.prems" c] .
    show ?thesis
    proof (cases "subscript vec k")
      case (Inl f)
      with True c show ?thesis
        by (subst prng_vec_loop.simps, subst prng_vec_loop_per_draw.simps) simp
    next
      case (Inr x)
      note "1.IH" [OF True c [symmetric] refl Inr "1.prems"]
      with True c Inr d' show ?thesis
        by (subst prng_vec_loop.simps, subst prng_vec_loop_per_draw.simps) simp
    qed
  qed
qed

lemma prng_random_vec_n_per_draw_eq:
  assumes "uid_stateless L"
  shows "prng_random_vec_n_per_draw L dflt vec count tls = prng_random_vec_n L dflt vec count tls"
  unfolding prng_random_vec_n_per_draw_def prng_random_vec_n_def Let_def
    prng_vec_loop_per_draw_eq [OF assms]
  by (simp split: sum.splits)

lemma prng_arr_loop_per_draw_eq:
  assumes "uid_stateless L"
  shows "prng_arr_loop L arr Count i ret (uid_new L 0 (length arr - 1)) g =
           (case prng_arr_loop_per_draw L arr Count i ret g of
              Inl f \<Rightarrow> Inl f
            | Inr (ret', g') \<Rightarrow> Inr (ret', uid_new L 0 (length arr - 1), g'))"
  using assms
proof (induction L arr Count i ret g rule: prng_arr_loop_per_draw.induct)
  case (1 L arr Count i ret_arr engine)
  let ?d = "uid_new L 0 (length arr - 1)"
  show ?case
  proof (cases "i < Count")
    case False
    then show ?thesis
      by (simp add: prng_arr_loop.simps prng_arr_loop_per_draw.simps)
  next
    case True
    obtain k d' g' where c: "uid_call_mt L ?d engine = (k, d', g')"
      by (cases "uid_call_mt L ?d engine") auto
    have d': "d' = ?d"
      using uid_stateless_mtD [OF "1.prems" c] .
    show ?thesis
    proof (cases "subscript arr k")
      case (Inl f)
      with True c show ?thesis
        by (subst prng_arr_loop.simps, subst prng_arr_loop_per_draw.simps) simp
    next
      case (Inr x)
      show ?thesis
      proof (cases "i < length ret_arr")
        case False
        with True c Inr show ?thesis
          by (subst prng_arr_loop.simps, subst prng_arr_loop_per_draw.simps) simp
      next
        case inb: True
        note "1.IH" [OF True c [symmetric] refl Inr inb "1.prems"]
        with True c Inr d' inb show ?thesis
          by (subst prng_arr_loop.simps, subst prng_arr_loop_per_draw.simps) simp
      qed
    qed
  qed
qed

lemma prng_random_arr_n_per_draw_eq:
  assumes "uid_stateless L"
  shows "prng_random_arr_n_per_draw L dflt Count arr tls = prng_random_arr_n L dflt Count arr tls"
  unfolding prng_random_arr_n_per_draw_def prng_random_arr_n_def Let_def
    prng_arr_loop_per_draw_eq [OF assms]
  by (simp split: sum.splits)

lemma trng_vec_loop_per_draw_eq:
  assumes "uid_stateless L"
  shows "trng_vec_loop L vec count i ret (uid_new L 0 (length vec - 1)) g =
           (case trng_vec_loop_per_draw L vec count i ret g of
              Inl f \<Rightarrow> Inl f
            | Inr (ret', g') \<Rightarrow> Inr (ret', uid_new L 0 (length vec - 1), g'))"
  using assms
proof (induction L vec count i ret g rule: trng_vec_loop_per_draw.induct)
  case (1 L vec count i ret_vec engine)
  let ?d = "uid_new L 0 (length vec - 1)"
  show ?case
  proof (cases "i < count")
    case False
    then show ?thesis
      by (simp add: trng_vec_loop.simps trng_vec_loop_per_draw.simps)
  next
    case True
    obtain k d' g' where c: "uid_call_rd L ?d engine = (k, d', g')"
      by (cases "uid_call_rd L ?d engine") auto
    have d': "d' = ?d"
      using uid_stateless_rdD [OF "1.prems" c] .
    show ?thesis
    proof (cases "subscript vec k")
      case (Inl f)
      with True c show ?thesis
        by (subst trng_vec_loop.simps, subst trng_vec_loop_per_draw.simps) simp
    next
      case (Inr x)
      note "1.IH" [OF True c [symmetric] refl Inr "1.prems"]
      with True c Inr d' show ?thesis
        by (subst trng_vec_loop.simps, subst trng_vec_loop_per_draw.simps) simp
    qed
  qed
qed

lemma trng_random_vec_n_per_draw_eq:
  assumes "uid_stateless L"
  shows "trng_random_vec_n_per_draw L dflt vec count tls = trng_random_vec_n L dflt vec count tls"
  unfolding trng_random_vec_n_per_draw_def trng_random_vec_n_def Let_def
    trng_vec_loop_per_draw_eq [OF assms]
  by (simp split: sum.splits)

lemma trng_arr_loop_per_draw_eq:
  assumes "uid_stateless L"
  shows "trng_arr_loop L arr Count i ret (uid_new L 0 (length arr - 1)) g =
           (case trng_arr_loop_per_draw L arr Count i ret g of
              Inl f \<Rightarrow> Inl f
            | Inr (ret', g') \<Rightarrow> Inr (ret', uid_new L 0 (length arr - 1), g'))"
  using assms
proof (induction L arr Count i ret g rule: trng_arr_loop_per_draw.induct)
  case (1 L arr Count i ret_arr engine)
  let ?d = "uid_new L 0 (length arr - 1)"
  show ?case
  proof (cases "i < Count")
    case False
    then show ?thesis
      by (simp add: trng_arr_loop.simps trng_arr_loop_per_draw.simps)
  next
    case True
    obtain k d' g' where c: "uid_call_rd L ?d engine = (k, d', g')"
      by (cases "uid_call_rd L ?d engine") auto
    have d': "d' = ?d"
      using uid_stateless_rdD [OF "1.prems" c] .
    show ?thesis
    proof (cases "subscript arr k")
      case (Inl f)
      with True c show ?thesis
        by (subst trng_arr_loop.simps, subst trng_arr_loop_per_draw.simps) simp
    next
      case (Inr x)
      show ?thesis
      proof (cases "i < length ret_arr")
        case False
        with True c Inr show ?thesis
          by (subst trng_arr_loop.simps, subst trng_arr_loop_per_draw.simps) simp
      next
        case inb: True
        note "1.IH" [OF True c [symmetric] refl Inr inb "1.prems"]
        with True c Inr d' inb show ?thesis
          by (subst trng_arr_loop.simps, subst trng_arr_loop_per_draw.simps) simp
      qed
    qed
  qed
qed

lemma trng_random_arr_n_per_draw_eq:
  assumes "uid_stateless L"
  shows "trng_random_arr_n_per_draw L dflt Count arr tls = trng_random_arr_n L dflt Count arr tls"
  unfolding trng_random_arr_n_per_draw_def trng_random_arr_n_def Let_def
    trng_arr_loop_per_draw_eq [OF assms]
  by (simp split: sum.splits)

lemma lcg_lib_stateless: "uid_stateless lcg_lib"
  by (simp add: uid_stateless_def lcg_lib_def)

text \<open>
  Claim C5. In each multi-draw function, of either class and over a vector or an array,
  constructing the distribution once before the loop and reusing it gives the same result,
  the same thread-local state and the same faults as constructing it anew for each element,
  from the same thread-local state. This holds when a call leaves the distribution object
  as it found it, which is what \<open>std::uniform_int_distribution\<close> does where it stores
  only its two parameters.
\<close>

theorem distribution_reuse_no_effect:
  assumes "uid_stateless L"
  shows "prng_random_vec_n_per_draw L dflt vec count ptls = prng_random_vec_n L dflt vec count ptls \<and>
         prng_random_arr_n_per_draw L dflt Count arr ptls = prng_random_arr_n L dflt Count arr ptls \<and>
         trng_random_vec_n_per_draw L dflt vec count ttls = trng_random_vec_n L dflt vec count ttls \<and>
         trng_random_arr_n_per_draw L dflt Count arr ttls = trng_random_arr_n L dflt Count arr ttls"
  using assms
  by (simp add: prng_random_vec_n_per_draw_eq prng_random_arr_n_per_draw_eq
      trng_random_vec_n_per_draw_eq trng_random_arr_n_per_draw_eq)

theorem distribution_reuse_no_effect_witness:
  "uid_stateless lcg_lib \<and>
   (prng_random_vec_n_per_draw lcg_lib (0::nat) [10, 20, 30] 5 None =
      prng_random_vec_n lcg_lib 0 [10, 20, 30] 5 None \<and>
    prng_random_arr_n_per_draw lcg_lib (0::nat) 4 [10, 20, 30] None =
      prng_random_arr_n lcg_lib 0 4 [10, 20, 30] None \<and>
    trng_random_vec_n_per_draw lcg_lib (0::nat) [10, 20, 30] 5 (Some 3) =
      trng_random_vec_n lcg_lib 0 [10, 20, 30] 5 (Some 3) \<and>
    trng_random_arr_n_per_draw lcg_lib (0::nat) 4 [10, 20, 30] (Some 3) =
      trng_random_arr_n lcg_lib 0 4 [10, 20, 30] (Some 3))"
proof -
  have h: "uid_stateless lcg_lib" by (rule lcg_lib_stateless)
  note distribution_reuse_no_effect
    [OF h, of "0::nat" "[10, 20, 30]" 5 None 4 "[10, 20, 30]" "Some 3"]
  then show ?thesis
    by (rule conjI [OF h])
qed

section \<open>The two classes compared\<close>













text \<open>
  Claim C7. On an array of length zero, \<open>random(arr)\<close> returns the value-initialised
  element and \<open>random<Count>(arr)\<close> returns the value-initialised array, and the
  thread-local storage after the call is the storage before it: no engine is constructed
  and none is drawn from. In both classes.
\<close>

theorem empty_array_no_draw:
  "prng_random_arr L dflt [] ptls = Inr (dflt, ptls) \<and>
   prng_random_arr_n L dflt Count [] ptls = Inr (replicate Count dflt, ptls) \<and>
   trng_random_arr L dflt [] ttls = Inr (dflt, ttls) \<and>
   trng_random_arr_n L dflt Count [] ttls = Inr (replicate Count dflt, ttls)"
  by (simp add: prng_random_arr_def prng_random_arr_n_def trng_random_arr_def
      trng_random_arr_n_def)

text \<open>
  Claim C10. On an array of length zero and for a positive \<open>Count\<close>,
  \<open>random<Count>(arr)\<close> of both classes returns an array that is not empty: it has
  exactly \<open>Count\<close> elements, each the value-initialised element.
\<close>

theorem empty_array_pick_n_full_length:
  assumes "0 < Count"
  shows "(\<exists>ret t. prng_random_arr_n L dflt Count [] ptls = Inr (ret, t) \<and>
            ret \<noteq> [] \<and> length ret = Count \<and> (\<forall>x \<in> set ret. x = dflt)) \<and>
         (\<exists>ret t. trng_random_arr_n L dflt Count [] ttls = Inr (ret, t) \<and>
            ret \<noteq> [] \<and> length ret = Count \<and> (\<forall>x \<in> set ret. x = dflt))"
  using assms by (simp add: prng_random_arr_n_def trng_random_arr_n_def)

theorem empty_array_pick_n_full_length_witness:
  "(0::nat) < 3 \<and>
   ((\<exists>ret t. prng_random_arr_n lcg_lib (0::int) 3 [] None = Inr (ret, t) \<and>
            ret \<noteq> [] \<and> length ret = 3 \<and> (\<forall>x \<in> set ret. x = 0)) \<and>
    (\<exists>ret t. trng_random_arr_n lcg_lib (0::int) 3 [] None = Inr (ret, t) \<and>
            ret \<noteq> [] \<and> length ret = 3 \<and> (\<forall>x \<in> set ret. x = 0)))"
proof -
  have h: "(0::nat) < 3" by simp
  note empty_array_pick_n_full_length [OF h, of lcg_lib "0::int" None None]
  then show ?thesis
    by (rule conjI [OF h])
qed

end
